theory Spec2Isabelle
  imports Complex_Main
begin

section \<open>The batching model runner of \<open>elit/server/server.py\<close>\<close>

text \<open>
  \<open>ModelRunner\<close> is an asyncio program: coroutines run on one thread and a coroutine
  is only interrupted at an \<open>await\<close> that really suspends. Neither critical section
  of the source contains an \<open>await\<close>, so the queue lock is free whenever a coroutine
  reaches \<open>async with self.queue_lock\<close>, acquiring it does not suspend, and the
  code between two suspension points is one atomic step. The steps are:
  \<^item> the prologue of \<open>model_runner\<close> up to its first \<open>needs_processing.wait()\<close>;
  \<^item> \<open>process_input\<close> from its first line to \<open>await our_task["done_event"].wait()\<close>;
  \<^item> a timer of the event loop firing its callback \<open>needs_processing.set\<close>;
  \<^item> \<open>model_runner\<close> from waking in \<open>needs_processing.wait()\<close> to
    \<open>await loop.run_in_executor(...)\<close>;
  \<^item> \<open>model_runner\<close> from the executor's result through the fan-out loop to the next
    \<open>needs_processing.wait()\<close>, and straight on into the next dispatch when the
    event is already set (\<open>Event.wait\<close> returns without suspending then).

  \<open>loop.time()\<close> is a float; the model reads it as a real number. Nothing below
  depends on rounding. Log calls are left out, and with them \<open>longest_wait\<close>, which
  is only logged. The asyncio is the one the source was written for, where
  \<open>asyncio.Event\<close> and \<open>asyncio.Lock\<close> still take \<open>loop\<close>.
\<close>

subsection \<open>Data\<close>

text \<open>\<open>HandlingError(msg, code)\<close>; \<open>AttributeError\<close> is what \<open>async with None\<close>
  raises when \<open>process_input\<close> runs before \<open>model_runner\<close> created the lock.\<close>

datatype error = HandlingError string int | AttributeError

text \<open>
  The dict \<open>our_task\<close>. It is shared by reference between the submitting coroutine,
  the queue and the batch. Its entries \<open>input\<close> and \<open>time\<close> are written once, at
  creation, and travel with the reference; \<open>tid\<close> is the identity of the dict (the
  number of tasks admitted before it). Its entries \<open>output\<close> and \<open>done_event\<close>
  are written later through the reference and live in the store of the system state,
  indexed by \<open>tid\<close>.
\<close>

record 'i task =
  tid :: nat
  input :: 'i
  time :: real

text \<open>A \<open>TimerHandle\<close> returned by \<open>loop.call_at(when, self.needs_processing.set)\<close>.\<close>

datatype timer_state = Pending | Cancelled | Fired

record timer =
  tm_when :: real
  tm_state :: timer_state

text \<open>Where the coroutine \<open>model_runner\<close> is suspended; \<open>Executing\<close> carries its
  local variable \<open>to_process\<close> across \<open>await loop.run_in_executor(...)\<close>.\<close>

datatype 'i coroutine = NotStarted | Waiting | Executing "'i task list"

text \<open>
  What \<open>self.service.parse(batch)\<close> does, per its annotation \<open>List[Any]\<close>: it returns a
  list of objects, or raises an \<open>Exception\<close> (itself an object). Exits of the
  interpreter (\<open>SystemExit\<close>, \<open>KeyboardInterrupt\<close>) are not worker failures and are
  not modelled.
\<close>

datatype 'o parse_outcome = Returns "'o list" | Raises 'o

record ('i, 'o) system =
  \<comment> \<open>fields of \<open>ModelRunner\<close>\<close>
  max_wait :: real
  max_batch_size :: int
  max_queue_size :: int
  queue :: "'i task list"
  queue_lock :: "unit option"
  needs_processing :: bool
  needs_processing_timer :: "nat option"
  \<comment> \<open>the event loop: its clock and every timer handle it created, in creation order\<close>
  clock :: real
  timers :: "timer list"
  \<comment> \<open>the mutable entries of the task dicts, by identity\<close>
  accepted :: nat
  "output" :: "nat \<Rightarrow> 'o option"
  done_event :: "nat \<Rightarrow> nat"
  \<comment> \<open>the coroutine \<open>model_runner\<close>, and the batches it handed to the executor\<close>
  runner :: "'i coroutine"
  launched :: "'i task list list"

text \<open>
  \<open>queue_lock\<close> and \<open>needs_processing\<close> are \<open>None\<close> until \<open>model_runner\<close> creates
  both in its prologue; the model tracks that in \<open>queue_lock\<close> and keeps the flag of
  the event in \<open>needs_processing\<close>. \<open>done_event s i\<close> counts the calls of
  \<open>set()\<close> on the event of task \<open>i\<close>; the event's flag is \<open>0 < done_event s i\<close>.
\<close>

text \<open>\<open>ModelRunner.__init__\<close>, with the loop's clock at 0.\<close>

definition init :: "int \<Rightarrow> int \<Rightarrow> real \<Rightarrow> ('i, 'o) system" where
  "init mqs mbs mw =
    \<lparr>max_wait = mw, max_batch_size = mbs, max_queue_size = mqs,
     queue = [], queue_lock = None, needs_processing = False,
     needs_processing_timer = None,
     clock = 0, timers = [],
     accepted = 0, output = (\<lambda>_. None), done_event = (\<lambda>_. 0),
     runner = NotStarted, launched = []\<rparr>"

subsection \<open>Operations\<close>

text \<open>\<open>loop.call_at(when, self.needs_processing.set)\<close>: a new handle, named by its
  position.\<close>

definition call_at :: "real \<Rightarrow> ('i, 'o) system \<Rightarrow> nat \<times> ('i, 'o) system" where
  "call_at w s = (length (timers s), s\<lparr>timers := timers s @ [\<lparr>tm_when = w, tm_state = Pending\<rparr>]\<rparr>)"

text \<open>\<open>TimerHandle.cancel()\<close>: a handle that has fired stays fired.\<close>

definition cancel :: "nat \<Rightarrow> ('i, 'o) system \<Rightarrow> ('i, 'o) system" where
  "cancel h s =
    (if h < length (timers s) \<and> tm_state (timers s ! h) = Pending
     then s\<lparr>timers := (timers s)[h := (timers s ! h)\<lparr>tm_state := Cancelled\<rparr>]\<rparr>
     else s)"

definition schedule_processing_if_needed :: "('i, 'o) system \<Rightarrow> ('i, 'o) system" where
  "schedule_processing_if_needed s =
    (if max_batch_size s \<le> int (length (queue s)) then s\<lparr>needs_processing := True\<rparr>
     else if queue s \<noteq> [] then
       (let (h, s') = call_at (time (hd (queue s)) + max_wait s) s
        in s'\<lparr>needs_processing_timer := Some h\<rparr>)
     else s)"

text \<open>The critical section of \<open>process_input\<close>. The caller then waits for
  \<open>done_event\<close> of its task and reads \<open>output\<close> (\<open>awaited\<close> below).\<close>

definition process_input :: "'i \<Rightarrow> ('i, 'o) system \<Rightarrow> error + ('i, 'o) system" where
  "process_input inp s =
    (let our_task = \<lparr>tid = accepted s, input = inp, time = clock s\<rparr> in
     case queue_lock s of
       None \<Rightarrow> Inl AttributeError
     | Some _ \<Rightarrow>
         if max_queue_size s \<le> int (length (queue s))
         then Inl (HandlingError ''I'm too busy'' 503)
         else Inr (schedule_processing_if_needed
                     (s\<lparr>queue := queue s @ [our_task], accepted := Suc (accepted s)\<rparr>)))"

definition awaited :: "('i, 'o) system \<Rightarrow> nat \<Rightarrow> 'o option" where
  "awaited s i = (if 0 < done_event s i then output s i else None)"

text \<open>The slice \<open>xs[:n]\<close> of Python: a negative \<open>n\<close> counts from the end.\<close>

definition slice_to :: "'a list \<Rightarrow> int \<Rightarrow> 'a list" where
  "slice_to xs n = (if 0 \<le> n then take (nat n) xs else take (nat (int (length xs) + n)) xs)"

definition run_model :: "'o parse_outcome \<Rightarrow> 'i list \<Rightarrow> 'o list" where
  "run_model parse batch = (case parse of Returns rs \<Rightarrow> rs | Raises e \<Rightarrow> map (\<lambda>_. e) batch)"

text \<open>The body of the loop \<open>for t, r in zip(to_process, result)\<close>, and the loop.\<close>

definition assign :: "'i task \<times> 'o \<Rightarrow> ('i, 'o) system \<Rightarrow> ('i, 'o) system" where
  "assign p s =
    s\<lparr>output := (output s)(tid (fst p) := Some (snd p)),
      done_event := (done_event s)(tid (fst p) := Suc (done_event s (tid (fst p))))\<rparr>"

definition fan_out :: "'i task list \<Rightarrow> 'o list \<Rightarrow> ('i, 'o) system \<Rightarrow> ('i, 'o) system" where
  "fan_out to_process result s = fold assign (zip to_process result) s"

text \<open>\<open>model_runner\<close> from \<open>self.needs_processing.clear()\<close> to the call of
  \<open>loop.run_in_executor\<close>, which gets \<open>[t["input"] for t in to_process]\<close>.\<close>

definition dispatch :: "('i, 'o) system \<Rightarrow> ('i, 'o) system" where
  "dispatch s =
    (let s1 = s\<lparr>needs_processing := False\<rparr>;
         s2 = (case needs_processing_timer s1 of
                 None \<Rightarrow> s1
               | Some h \<Rightarrow> (cancel h s1)\<lparr>needs_processing_timer := None\<rparr>);
         to_process = slice_to (queue s2) (max_batch_size s2);
         s3 = s2\<lparr>queue := drop (length to_process) (queue s2)\<rparr>;
         s4 = schedule_processing_if_needed s3
     in s4\<lparr>runner := Executing to_process, launched := launched s4 @ [to_process]\<rparr>)"

text \<open>\<open>model_runner\<close> from the executor's result to its next suspension.\<close>

definition complete :: "'o parse_outcome \<Rightarrow> 'i task list \<Rightarrow> ('i, 'o) system \<Rightarrow> ('i, 'o) system" where
  "complete parse to_process s =
    (let batch = map input to_process;
         result = run_model parse batch;
         s1 = fan_out to_process result s
     in if needs_processing s1 then dispatch s1 else s1\<lparr>runner := Waiting\<rparr>)"

subsection \<open>Executions\<close>

text \<open>
  What can happen next: \<open>model_runner\<close> starts, the clock advances, a caller submits, a
  pending timer whose time has come fires, the runner wakes on the event, the executor
  hands back what \<open>service.parse\<close> did. \<open>step\<close> is \<open>None\<close> where the event cannot
  happen in the state. An exception of \<open>process_input\<close> goes to the caller and leaves
  the state as it is: both are raised before the first write.
\<close>

datatype ('i, 'o) event =
  Start | Tick real | Submit 'i | Fire nat | Wake | Complete "'o parse_outcome"

definition step :: "('i, 'o) system \<Rightarrow> ('i, 'o) event \<Rightarrow> ('i, 'o) system option" where
  "step s e =
    (case e of
       Start \<Rightarrow>
         (if runner s = NotStarted
          then Some (s\<lparr>queue_lock := Some (), needs_processing := False, runner := Waiting\<rparr>)
          else None)
     | Tick t \<Rightarrow> (if clock s \<le> t then Some (s\<lparr>clock := t\<rparr>) else None)
     | Submit inp \<Rightarrow> (case process_input inp s of Inl err \<Rightarrow> Some s | Inr s' \<Rightarrow> Some s')
     | Fire h \<Rightarrow>
         (if h < length (timers s) \<and> tm_state (timers s ! h) = Pending
             \<and> tm_when (timers s ! h) \<le> clock s
          then Some (s\<lparr>timers := (timers s)[h := (timers s ! h)\<lparr>tm_state := Fired\<rparr>],
                       needs_processing := True\<rparr>)
          else None)
     | Wake \<Rightarrow> (if runner s = Waiting \<and> needs_processing s then Some (dispatch s) else None)
     | Complete parse \<Rightarrow>
         (case runner s of Executing to_process \<Rightarrow> Some (complete parse to_process s)
          | _ \<Rightarrow> None))"

fun exec :: "('i, 'o) system \<Rightarrow> ('i, 'o) event list \<Rightarrow> ('i, 'o) system option" where
  "exec s [] = Some s"
| "exec s (e # es) = (case step s e of None \<Rightarrow> None | Some s' \<Rightarrow> exec s' es)"

subsection \<open>Invariants of executions\<close>

text \<open>The queue never outgrows \<open>max_queue_size\<close>, and nothing is queued before
  \<open>model_runner\<close> has created the lock.\<close>

definition within_capacity :: "('i, 'o) system \<Rightarrow> bool" where
  "within_capacity s \<longleftrightarrow>
     int (length (queue s)) \<le> max 0 (max_queue_size s) \<and> (queue_lock s = None \<longrightarrow> queue s = [])
     \<and> (queue_lock s = None \<longleftrightarrow> runner s = NotStarted)"

text \<open>
  Every admitted task is, in admission order, first in the launched batches and then in
  the queue; a task still queued (or not yet admitted) has no output and an unset
  event, and no event was ever set twice. While the executor runs, its batch is the
  last one launched and none of its tasks is completed yet.
\<close>

definition ids_ok :: "('i, 'o) system \<Rightarrow> bool" where
  "ids_ok s \<longleftrightarrow>
     map tid (concat (launched s) @ queue s) = [0..<accepted s]
     \<and> (\<forall>i. done_event s i \<le> 1)
     \<and> (\<forall>i. accepted s \<le> i \<or> i \<in> tid ` set (queue s) \<longrightarrow>
            done_event s i = 0 \<and> output s i = None)"

definition consistent :: "('i, 'o) system \<Rightarrow> bool" where
  "consistent s \<longleftrightarrow>
     ids_ok s
     \<and> (\<forall>to_process. runner s = Executing to_process \<longrightarrow>
           launched s \<noteq> [] \<and> last (launched s) = to_process
           \<and> (\<forall>i \<in> tid ` set to_process. done_event s i = 0 \<and> output s i = None))"

section \<open>What each operation leaves alone\<close>

lemma schedule_keeps [simp]:
  "max_wait (schedule_processing_if_needed s) = max_wait s"
  "max_batch_size (schedule_processing_if_needed s) = max_batch_size s"
  "max_queue_size (schedule_processing_if_needed s) = max_queue_size s"
  "queue (schedule_processing_if_needed s) = queue s"
  "queue_lock (schedule_processing_if_needed s) = queue_lock s"
  "clock (schedule_processing_if_needed s) = clock s"
  "accepted (schedule_processing_if_needed s) = accepted s"
  "output (schedule_processing_if_needed s) = output s"
  "done_event (schedule_processing_if_needed s) = done_event s"
  "runner (schedule_processing_if_needed s) = runner s"
  "launched (schedule_processing_if_needed s) = launched s"
  by (simp_all add: schedule_processing_if_needed_def call_at_def)

lemma cancel_keeps [simp]:
  "max_wait (cancel h s) = max_wait s"
  "max_batch_size (cancel h s) = max_batch_size s"
  "max_queue_size (cancel h s) = max_queue_size s"
  "queue (cancel h s) = queue s"
  "queue_lock (cancel h s) = queue_lock s"
  "needs_processing (cancel h s) = needs_processing s"
  "needs_processing_timer (cancel h s) = needs_processing_timer s"
  "clock (cancel h s) = clock s"
  "accepted (cancel h s) = accepted s"
  "output (cancel h s) = output s"
  "done_event (cancel h s) = done_event s"
  "runner (cancel h s) = runner s"
  "launched (cancel h s) = launched s"
  by (simp_all add: cancel_def)

lemma fan_out_Nil [simp]: "fan_out [] rs s = s" "fan_out ts [] s = s"
  by (simp_all add: fan_out_def)

lemma fan_out_Cons [simp]: "fan_out (t # ts) (r # rs) s = fan_out ts rs (assign (t, r) s)"
  by (simp add: fan_out_def)

lemma assign_keeps [simp]:
  "max_wait (assign p s) = max_wait s"
  "max_batch_size (assign p s) = max_batch_size s"
  "max_queue_size (assign p s) = max_queue_size s"
  "queue (assign p s) = queue s"
  "queue_lock (assign p s) = queue_lock s"
  "needs_processing (assign p s) = needs_processing s"
  "needs_processing_timer (assign p s) = needs_processing_timer s"
  "clock (assign p s) = clock s"
  "timers (assign p s) = timers s"
  "accepted (assign p s) = accepted s"
  "runner (assign p s) = runner s"
  "launched (assign p s) = launched s"
  by (simp_all add: assign_def)

lemma fan_out_keeps [simp]:
  "max_wait (fan_out ts rs s) = max_wait s"
  "max_batch_size (fan_out ts rs s) = max_batch_size s"
  "max_queue_size (fan_out ts rs s) = max_queue_size s"
  "queue (fan_out ts rs s) = queue s"
  "queue_lock (fan_out ts rs s) = queue_lock s"
  "needs_processing (fan_out ts rs s) = needs_processing s"
  "needs_processing_timer (fan_out ts rs s) = needs_processing_timer s"
  "clock (fan_out ts rs s) = clock s"
  "timers (fan_out ts rs s) = timers s"
  "accepted (fan_out ts rs s) = accepted s"
  "runner (fan_out ts rs s) = runner s"
  "launched (fan_out ts rs s) = launched s"
  by (induction ts rs arbitrary: s rule: list_induct2'; simp)+

lemma dispatch_keeps [simp]:
  "max_wait (dispatch s) = max_wait s"
  "max_batch_size (dispatch s) = max_batch_size s"
  "max_queue_size (dispatch s) = max_queue_size s"
  "queue_lock (dispatch s) = queue_lock s"
  "clock (dispatch s) = clock s"
  "accepted (dispatch s) = accepted s"
  "output (dispatch s) = output s"
  "done_event (dispatch s) = done_event s"
  by (simp_all add: dispatch_def Let_def split: option.splits)

lemma dispatch_queue [simp]:
  "queue (dispatch s) = drop (length (slice_to (queue s) (max_batch_size s))) (queue s)"
  "runner (dispatch s) = Executing (slice_to (queue s) (max_batch_size s))"
  "launched (dispatch s) = launched s @ [slice_to (queue s) (max_batch_size s)]"
  by (simp_all add: dispatch_def Let_def split: option.splits)

lemma take_append_drop_length: "take k xs @ drop (length (take k xs)) xs = xs"
proof (cases "k \<le> length xs")
  case True
  then show ?thesis by (simp add: min_def)
next
  case False
  then show ?thesis by simp
qed

lemma slice_to_append_drop [simp]:
  "slice_to xs n @ drop (length (slice_to xs n)) xs = xs"
  by (cases "0 \<le> n") (simp_all only: slice_to_def take_append_drop_length if_True if_False)

lemma complete_keeps [simp]:
  "max_wait (complete p tp s) = max_wait s"
  "max_batch_size (complete p tp s) = max_batch_size s"
  "max_queue_size (complete p tp s) = max_queue_size s"
  "queue_lock (complete p tp s) = queue_lock s"
  "clock (complete p tp s) = clock s"
  "accepted (complete p tp s) = accepted s"
  by (simp_all add: complete_def Let_def)

lemma exec_invariant:
  assumes "exec s evs = Some s'" and "P s"
    and "\<And>s e s'. P s \<Longrightarrow> step s e = Some s' \<Longrightarrow> P s'"
  shows "P s'"
  using assms(1,2)
proof (induction evs arbitrary: s)
  case Nil
  then show ?case by simp
next
  case (Cons e es)
  then show ?case by (auto split: option.splits intro: assms(3))
qed

section \<open>Configuration and capacity\<close>

lemmas run_defs = init_def step_def process_input_def schedule_processing_if_needed_def
  call_at_def cancel_def dispatch_def complete_def fan_out_def assign_def run_model_def
  slice_to_def Let_def

lemma process_input_keeps:
  "process_input inp s = Inr s' \<Longrightarrow>
   max_wait s' = max_wait s \<and> max_batch_size s' = max_batch_size s \<and>
   max_queue_size s' = max_queue_size s \<and> queue_lock s' = queue_lock s"
  by (auto simp: process_input_def split: option.splits if_splits)

lemma step_keeps_config:
  "step s e = Some s' \<Longrightarrow>
   max_wait s' = max_wait s \<and> max_batch_size s' = max_batch_size s \<and>
   max_queue_size s' = max_queue_size s"
  by (cases e) (auto simp: step_def dest: process_input_keeps
      split: if_splits sum.splits coroutine.splits)

lemma exec_config:
  assumes "exec (init mqs mbs mw) evs = Some s"
  shows "max_wait s = mw \<and> max_batch_size s = mbs \<and> max_queue_size s = mqs"
  by (rule exec_invariant [OF assms]) (auto simp: init_def dest: step_keeps_config)

lemma process_input_queue:
  "process_input inp s = Inr s' \<Longrightarrow>
   int (length (queue s)) < max_queue_size s \<and> queue_lock s \<noteq> None \<and>
   runner s' = runner s \<and>
   queue s' = queue s @ [\<lparr>tid = accepted s, input = inp, time = clock s\<rparr>]"
  by (auto simp: process_input_def split: option.splits if_splits)

lemma step_within_capacity:
  assumes "within_capacity s" and "step s e = Some s'"
  shows "within_capacity s'"
proof (cases e)
  case (Submit inp)
  show ?thesis
  proof (cases "process_input inp s")
    case (Inl err)
    with Submit assms show ?thesis by (simp add: step_def)
  next
    case (Inr s2)
    with Submit assms(2) have s2: "s' = s2" by (simp add: step_def)
    from process_input_keeps [OF Inr] process_input_queue [OF Inr] assms(1) s2
    show ?thesis by (auto simp: within_capacity_def)
  qed
next
  case (Complete p)
  with assms show ?thesis
    by (auto simp: step_def within_capacity_def complete_def Let_def
        split: coroutine.splits if_splits)
qed (use assms in \<open>auto simp: step_def within_capacity_def split: if_splits\<close>)

lemma exec_within_capacity:
  assumes "exec (init mqs mbs mw) evs = Some s"
  shows "within_capacity s"
proof (rule exec_invariant [OF assms])
  show "within_capacity (init mqs mbs mw :: ('a, 'b) system)"
    by (simp add: init_def within_capacity_def)
qed (rule step_within_capacity)

section \<open>Task identities and the fan-out loop\<close>

lemma fan_out_other:
  "i \<notin> tid ` set tp \<Longrightarrow>
   output (fan_out tp rs s) i = output s i \<and> done_event (fan_out tp rs s) i = done_event s i"
  by (induction tp rs arbitrary: s rule: list_induct2') (auto simp: assign_def)

lemma fan_out_nth:
  "distinct (map tid tp) \<Longrightarrow> k < length tp \<Longrightarrow> k < length rs \<Longrightarrow>
   output (fan_out tp rs s) (tid (tp ! k)) = Some (rs ! k)
   \<and> done_event (fan_out tp rs s) (tid (tp ! k)) = Suc (done_event s (tid (tp ! k)))"
proof (induction tp rs arbitrary: s k rule: list_induct2')
  case (4 t ts r rs)
  show ?case
  proof (cases k)
    case 0
    from 4(2) have "tid t \<notin> tid ` set ts" by simp
    from fan_out_other [OF this, of rs "assign (t, r) s"] 0
    show ?thesis by (simp add: assign_def)
  next
    case (Suc j)
    with 4(2,3,4) have d: "distinct (map tid ts)" and j: "j < length ts" "j < length rs"
      and nt: "tid t \<notin> tid ` set ts" by auto
    from j(1) have "ts ! j \<in> set ts" by (rule nth_mem)
    then have "tid (ts ! j) \<in> tid ` set ts" by (rule imageI)
    with nt have ne: "tid (ts ! j) \<noteq> tid t" by auto
    from 4(1) [OF d j, of "assign (t, r) s"] Suc ne
    show ?thesis by (simp add: assign_def)
  qed
qed simp_all

lemma fan_out_beyond:
  "distinct (map tid tp) \<Longrightarrow> k < length tp \<Longrightarrow> length rs \<le> k \<Longrightarrow>
   output (fan_out tp rs s) (tid (tp ! k)) = output s (tid (tp ! k))
   \<and> done_event (fan_out tp rs s) (tid (tp ! k)) = done_event s (tid (tp ! k))"
proof (induction tp rs arbitrary: s k rule: list_induct2')
  case (4 t ts r rs)
  then obtain j where k: "k = Suc j" by (cases k) auto
  with 4(2,3,4) have d: "distinct (map tid ts)" and j: "j < length ts" "length rs \<le> j"
    and nt: "tid t \<notin> tid ` set ts" by auto
  from j(1) have "ts ! j \<in> set ts" by (rule nth_mem)
  then have "tid (ts ! j) \<in> tid ` set ts" by (rule imageI)
    with nt have ne: "tid (ts ! j) \<noteq> tid t" by auto
  from 4(1) [OF d j, of "assign (t, r) s"] k ne
  show ?case by (simp add: assign_def)
qed simp_all


lemma process_input_Inr:
  assumes "process_input inp s = Inr s'"
  shows "queue s' = queue s @ [\<lparr>tid = accepted s, input = inp, time = clock s\<rparr>]"
    and "accepted s' = Suc (accepted s)" and "launched s' = launched s"
    and "runner s' = runner s" and "output s' = output s" and "done_event s' = done_event s"
    and "clock s' = clock s"
  using assms by (auto simp: process_input_def split: option.splits if_splits)

lemma ids_ok_distinct:
  assumes "ids_ok s"
  shows "distinct (map tid (concat (launched s) @ queue s))"
proof -
  from assms have "map tid (concat (launched s) @ queue s) = [0..<accepted s]"
    by (simp add: ids_ok_def)
  then show ?thesis by (simp only: distinct_upt)
qed

lemma consistent_running:
  assumes "consistent s" and "runner s = Executing tp"
  shows "distinct (map tid tp)" and "tid ` set tp \<inter> tid ` set (queue s) = {}"
    and "\<forall>i \<in> tid ` set tp. done_event s i = 0 \<and> output s i = None \<and> i < accepted s"
proof -
  from assms have l: "launched s \<noteq> []" "last (launched s) = tp" and ok: "ids_ok s"
    by (auto simp: consistent_def)
  then have c: "concat (launched s) = concat (butlast (launched s)) @ tp"
    by (metis append_butlast_last_id concat_append concat.simps append_Nil2)
  from ids_ok_distinct [OF ok] c
  show "distinct (map tid tp)" "tid ` set tp \<inter> tid ` set (queue s) = {}" by auto
  have fresh: "\<forall>i \<in> tid ` set tp. done_event s i = 0 \<and> output s i = None"
    using assms by (simp add: consistent_def)
  have "\<forall>i \<in> tid ` set tp. i < accepted s"
  proof
    fix i assume "i \<in> tid ` set tp"
    then have "i \<in> set (map tid (concat (launched s) @ queue s))" using c by auto
    with ok show "i < accepted s" by (simp add: ids_ok_def)
  qed
  with fresh
  show "\<forall>i \<in> tid ` set tp. done_event s i = 0 \<and> output s i = None \<and> i < accepted s"
    by simp
qed

lemma ids_ok_fresh:
  assumes "ids_ok s" and "accepted s \<le> i \<or> i \<in> tid ` set (queue s)"
  shows "done_event s i = 0" and "output s i = None"
proof -
  from assms(1) have "\<forall>i. accepted s \<le> i \<or> i \<in> tid ` set (queue s) \<longrightarrow>
      done_event s i = 0 \<and> output s i = None"
    unfolding ids_ok_def by (elim conjE)
  with assms(2) show "done_event s i = 0" and "output s i = None" by auto
qed

lemma ids_ok_waiting:
  assumes "ids_ok s"
  shows "consistent (s\<lparr>runner := Waiting\<rparr>)"
  using assms by (simp add: consistent_def ids_ok_def)

lemma ids_ok_dispatch:
  assumes "ids_ok s"
  shows "consistent (dispatch s)"
proof -
  let ?tp = "slice_to (queue s) (max_batch_size s)"
  let ?rest = "drop (length ?tp) (queue s)"
  have q: "?tp @ ?rest = queue s" by simp
  then have sets: "set (queue s) = set ?tp \<union> set ?rest" by (metis set_append)
  have ids: "map tid (concat (launched (dispatch s)) @ queue (dispatch s)) = [0..<accepted s]"
    using assms q by (simp add: ids_ok_def del: slice_to_append_drop)
  have "ids_ok (dispatch s)"
    unfolding ids_ok_def
  proof (intro conjI allI impI)
    show "map tid (concat (launched (dispatch s)) @ queue (dispatch s)) = [0..<accepted (dispatch s)]"
      using ids by simp
    fix i show "done_event (dispatch s) i \<le> 1" using assms by (simp add: ids_ok_def)
    assume "accepted (dispatch s) \<le> i \<or> i \<in> tid ` set (queue (dispatch s))"
    then have "accepted s \<le> i \<or> i \<in> tid ` set (queue s)" using sets by auto
    from ids_ok_fresh [OF assms this]
    show "done_event (dispatch s) i = 0" "output (dispatch s) i = None" by simp_all
  qed
  moreover have "\<forall>i \<in> tid ` set ?tp. done_event (dispatch s) i = 0 \<and> output (dispatch s) i = None"
  proof
    fix i assume "i \<in> tid ` set ?tp"
    then have "i \<in> tid ` set (queue s)" using sets by auto
    then have "accepted s \<le> i \<or> i \<in> tid ` set (queue s)" by simp
    from ids_ok_fresh [OF assms this]
    show "done_event (dispatch s) i = 0 \<and> output (dispatch s) i = None" by simp
  qed
  ultimately show ?thesis by (simp add: consistent_def)
qed

lemma consistent_fan_out:
  assumes "consistent s" and "runner s = Executing tp"
  shows "ids_ok (fan_out tp rs s)"
proof -
  note run = consistent_running [OF assms]
  from assms(1) have ok: "ids_ok s" by (simp add: consistent_def)
  have le: "done_event (fan_out tp rs s) i \<le> 1" for i
  proof (cases "i \<in> tid ` set tp")
    case False
    from fan_out_other [OF this, of rs s] ok show ?thesis by (simp add: ids_ok_def)
  next
    case True
    then obtain k where k: "k < length tp" "i = tid (tp ! k)"
      by (auto simp: in_set_conv_nth)
    from bspec [OF run(3) True] have z: "done_event s i = 0" by simp
    show ?thesis
    proof (cases "k < length rs")
      case True
      from fan_out_nth [OF run(1) k(1) True, of s] k(2) z show ?thesis by simp
    next
      case False
      then have "length rs \<le> k" by simp
      from fan_out_beyond [OF run(1) k(1) this, of s] k(2) z show ?thesis by simp
    qed
  qed
  have fresh: "done_event (fan_out tp rs s) i = 0 \<and> output (fan_out tp rs s) i = None"
    if "accepted s \<le> i \<or> i \<in> tid ` set (queue s)" for i
  proof -
    have "i \<notin> tid ` set tp"
    proof
      assume m: "i \<in> tid ` set tp"
      from bspec [OF run(3) m] have lt: "i < accepted s" by simp
      from run(2) m have "i \<notin> tid ` set (queue s)" by (simp add: disjoint_iff)
      with that lt show False by simp
    qed
    from fan_out_other [OF this, of rs s] ids_ok_fresh [OF ok that] show ?thesis by simp
  qed
  from ok le fresh show ?thesis by (simp add: ids_ok_def)
qed

lemma step_consistent:
  assumes "consistent s" and "step s e = Some s'"
  shows "consistent s'"
proof (cases e)
  case (Submit inp)
  show ?thesis
  proof (cases "process_input inp s")
    case (Inl err)
    with Submit assms show ?thesis by (simp add: step_def)
  next
    case (Inr s2)
    with Submit assms(2) have s2: "s' = s2" by (simp add: step_def)
    note eff = process_input_Inr [OF Inr]
    from assms(1) have ok: "ids_ok s" by (simp add: consistent_def)
    have "ids_ok s2"
      unfolding ids_ok_def
    proof (intro conjI allI impI)
      from ok show "map tid (concat (launched s2) @ queue s2) = [0..<accepted s2]"
        by (simp add: eff ids_ok_def)
      fix i from ok show "done_event s2 i \<le> 1" by (simp add: eff ids_ok_def)
      assume "accepted s2 \<le> i \<or> i \<in> tid ` set (queue s2)"
      then have "accepted s \<le> i \<or> i \<in> tid ` set (queue s)"
        by (cases "accepted s \<le> i") (simp_all add: eff)
      from ids_ok_fresh [OF ok this]
      show "done_event s2 i = 0" "output s2 i = None" by (simp_all add: eff)
    qed
    with assms(1) show ?thesis by (simp add: s2 consistent_def eff)
  qed
next
  case Wake
  with assms(2) have "s' = dispatch s" by (simp add: step_def split: if_splits)
  with assms(1) ids_ok_dispatch [of s] show ?thesis by (simp add: consistent_def)
next
  case (Complete p)
  with assms(2) obtain tp where tp: "runner s = Executing tp" and s': "s' = complete p tp s"
    by (cases "runner s") (simp_all add: step_def)
  let ?s1 = "fan_out tp (run_model p (map input tp)) s"
  have ok: "ids_ok ?s1" by (rule consistent_fan_out [OF assms(1) tp])
  show ?thesis
  proof (cases "needs_processing s")
    case True
    then have "s' = dispatch ?s1" using s' by (simp add: complete_def Let_def)
    with ids_ok_dispatch [OF ok] show ?thesis by simp
  next
    case False
    then have "s' = ?s1\<lparr>runner := Waiting\<rparr>" using s' by (simp add: complete_def Let_def)
    with ids_ok_waiting [OF ok] show ?thesis by simp
  qed
next
  case Start
  with assms(2) have "s' = s\<lparr>queue_lock := Some (), needs_processing := False, runner := Waiting\<rparr>"
    by (simp add: step_def split: if_splits)
  with assms(1) show ?thesis by (simp add: consistent_def ids_ok_def)
next
  case (Tick t)
  with assms(2) have "s' = s\<lparr>clock := t\<rparr>"
    by (simp add: step_def split: if_splits)
  with assms(1) show ?thesis by (simp add: consistent_def ids_ok_def)
next
  case (Fire h)
  with assms(2) have "s' = s\<lparr>timers := (timers s)[h := (timers s ! h)\<lparr>tm_state := Fired\<rparr>],
                       needs_processing := True\<rparr>"
    by (simp add: step_def split: if_splits)
  with assms(1) show ?thesis by (simp add: consistent_def ids_ok_def)
qed

lemma exec_consistent:
  assumes "exec (init mqs mbs mw) evs = Some s"
  shows "consistent s"
proof (rule exec_invariant [OF assms])
  show "consistent (init mqs mbs mw :: ('a, 'b) system)"
    by (simp add: init_def consistent_def ids_ok_def)
qed (rule step_consistent)

section \<open>Admission\<close>

text \<open>
  Claim C1. Along every execution the queue holds at most \<open>max_queue_size\<close> tasks, in
  particular right after any admission decision; \<open>process_input\<close> raises
  \<open>HandlingError("I'm too busy", code=503)\<close> exactly when the queue already holds
  \<open>max_queue_size\<close> tasks or more, and otherwise appends the new task at the end.
  Check and append are one step of the model: the source has no \<open>await\<close> between
  entering \<open>async with self.queue_lock\<close> and leaving it. \<open>max_queue_size\<close> is at
  least 1, as the configuration demands.
\<close>

theorem admission_bound:
  assumes "exec (init mqs mbs mw) evs = Some s" and "1 \<le> mqs"
  shows "int (length (queue s)) \<le> mqs
    \<and> (process_input inp s = Inl (HandlingError ''I'm too busy'' 503)
         \<longleftrightarrow> mqs \<le> int (length (queue s)))
    \<and> (\<forall>s'. process_input inp s = Inr s' \<longrightarrow>
          int (length (queue s)) < mqs
          \<and> queue s' = queue s @ [\<lparr>tid = accepted s, input = inp, time = clock s\<rparr>])
    \<and> (\<forall>s'. step s (Submit inp) = Some s' \<longrightarrow> int (length (queue s')) \<le> mqs)"
proof -
  have cfg: "max_queue_size s = mqs" using exec_config [OF assms(1)] by simp
  have cap: "within_capacity s" by (rule exec_within_capacity [OF assms(1)])
  have len: "int (length (queue s)) \<le> mqs"
    using cap cfg assms(2) by (simp add: within_capacity_def)
  have busy: "process_input inp s = Inl (HandlingError ''I'm too busy'' 503)
         \<longleftrightarrow> mqs \<le> int (length (queue s))"
  proof (cases "queue_lock s")
    case None
    with cap have "queue s = []" by (simp add: within_capacity_def)
    with None assms(2) show ?thesis by (simp add: process_input_def)
  next
    case (Some l)
    with cfg show ?thesis by (simp add: process_input_def)
  qed
  have acc: "\<forall>s'. process_input inp s = Inr s' \<longrightarrow>
          int (length (queue s)) < mqs
          \<and> queue s' = queue s @ [\<lparr>tid = accepted s, input = inp, time = clock s\<rparr>]"
    using process_input_queue [of inp s] cfg by simp
  have after: "\<forall>s'. step s (Submit inp) = Some s' \<longrightarrow> int (length (queue s')) \<le> mqs"
  proof (intro allI impI)
    fix s' assume "step s (Submit inp) = Some s'"
    from step_within_capacity [OF cap this] step_keeps_config [OF this] cfg assms(2)
    show "int (length (queue s')) \<le> mqs" by (simp add: within_capacity_def)
  qed
  from len busy acc after show ?thesis by simp
qed

theorem admission_bound_witness:
  "(let s = the (exec (init 2 2 (1 / 20) :: (string, string) system)
                   [Start, Submit ''A'', Submit ''B''])
    in exec (init 2 2 (1 / 20)) [Start, Submit ''A'', Submit ''B''] = Some s
       \<and> (1 :: int) \<le> 2 \<and> length (queue s) = 2
       \<and> process_input ''C'' s = Inl (HandlingError ''I'm too busy'' 503))"
proof -
  obtain s :: "(string, string) system"
    where e: "exec (init 2 2 (1 / 20)) [Start, Submit ''A'', Submit ''B''] = Some s"
    by (simp add: run_defs)
  have q: "length (queue s) = 2" using e by (simp add: run_defs) auto
  have "(1 :: int) \<le> 2" by simp
  from admission_bound [OF e this, of "''C''"] q e show ?thesis by simp
qed

text \<open>
  Claim C3. A submission that finds the started runner's queue at capacity gets the
  \<open>HandlingError\<close> with code 503 at once and changes nothing: the whole state after
  the call is the state before it, so queue, ready event and timers are untouched and no
  task has entered the system. (The dict built in the first lines of
  \<open>process_input\<close> is local and dropped by the raise.)
\<close>

theorem rejection_no_effect:
  assumes "queue_lock s \<noteq> None" and "max_queue_size s \<le> int (length (queue s))"
  shows "process_input inp s = Inl (HandlingError ''I'm too busy'' 503)
    \<and> step s (Submit inp) = Some s"
  using assms by (auto simp: process_input_def step_def)

theorem rejection_no_effect_witness:
  "(let s = the (exec (init 2 2 (1 / 20) :: (string, string) system)
                   [Start, Submit ''A'', Submit ''B''])
    in queue_lock s = Some () \<and> max_queue_size s = 2 \<and> length (queue s) = 2
       \<and> process_input ''C'' s = Inl (HandlingError ''I'm too busy'' 503)
       \<and> step s (Submit ''C'') = Some s)"
proof -
  obtain s :: "(string, string) system"
    where e: "exec (init 2 2 (1 / 20)) [Start, Submit ''A'', Submit ''B''] = Some s"
    by (simp add: run_defs)
  have q: "queue_lock s = Some ()" "max_queue_size s = 2" "length (queue s) = 2"
    using e by (auto simp: run_defs)
  then have h: "queue_lock s \<noteq> None" "max_queue_size s \<le> int (length (queue s))" by simp_all
  from rejection_no_effect [OF h, of "''C''"] q e show ?thesis by simp
qed

section \<open>The decide step\<close>

lemma schedule_full:
  assumes "max_batch_size s \<le> int (length (queue s))"
  shows "schedule_processing_if_needed s = s\<lparr>needs_processing := True\<rparr>"
  using assms by (simp add: schedule_processing_if_needed_def)

lemma slice_to_take: "0 \<le> n \<Longrightarrow> slice_to xs n = take (min (length xs) (nat n)) xs"
  by (simp add: slice_to_def min_def)

text \<open>
  Claim C2 (the code differs). \<open>schedule_processing_if_needed\<close> arms a timer at
  \<open>queue[0]["time"] + max_wait\<close> and stores the handle over the previous one without
  cancelling it; only \<open>model_runner\<close> cancels, and only the handle stored last. With
  \<open>max_batch_size = 3\<close>, two submissions leave two pending timers in the loop.
\<close>

theorem timers_pile_up:
  "(let s = the (exec (init 128 3 (1 / 20) :: (string, string) system)
                   [Start, Submit ''A'', Tick (1 / 100), Submit ''B''])
    in timers s = [\<lparr>tm_when = 1 / 20, tm_state = Pending\<rparr>,
                   \<lparr>tm_when = 1 / 20, tm_state = Pending\<rparr>]
       \<and> needs_processing_timer s = Some 1 \<and> length (queue s) = 2)"
  by (simp add: run_defs)

text \<open>
  Claim C4. When the decide step finds at least \<open>max_batch_size\<close> tasks queued it
  sets \<open>needs_processing\<close> and does nothing else: no timer is created and the stored
  handle is left alone. So when a submission brings the queue of a waiting runner to
  \<open>max_batch_size\<close>, the runner can wake at the same reading of the clock, and its
  wake launches the first \<open>max_batch_size\<close> tasks together.
\<close>

theorem full_batch_signals_ready:
  assumes "max_batch_size s \<le> int (length (queue s))"
  shows "schedule_processing_if_needed s = s\<lparr>needs_processing := True\<rparr>
    \<and> (\<forall>inp s0. runner s0 = Waiting \<and> process_input inp s0 = Inr s \<and> 0 \<le> max_batch_size s \<longrightarrow>
          needs_processing s \<and> timers s = timers s0
          \<and> needs_processing_timer s = needs_processing_timer s0 \<and> clock s = clock s0
          \<and> step s Wake = Some (dispatch s)
          \<and> runner (dispatch s) = Executing (take (nat (max_batch_size s)) (queue s))
          \<and> length (take (nat (max_batch_size s)) (queue s)) = nat (max_batch_size s))"
proof (intro conjI allI impI)
  show "schedule_processing_if_needed s = s\<lparr>needs_processing := True\<rparr>"
    by (rule schedule_full [OF assms])
next
  fix inp s0
  assume a: "runner s0 = Waiting \<and> process_input inp s0 = Inr s \<and> 0 \<le> max_batch_size s"
  then have p: "process_input inp s0 = Inr s" and w: "runner s0 = Waiting"
    and nn: "0 \<le> max_batch_size s" by simp_all
  let ?s1 = "s0\<lparr>queue := queue s0 @ [\<lparr>tid = accepted s0, input = inp, time = clock s0\<rparr>],
                accepted := Suc (accepted s0)\<rparr>"
  from p have s: "s = schedule_processing_if_needed ?s1"
    by (simp add: process_input_def split: option.splits if_splits)
  then have "queue s = queue ?s1" "max_batch_size s = max_batch_size ?s1" by simp_all
  with assms have "max_batch_size ?s1 \<le> int (length (queue ?s1))" by simp
  from schedule_full [OF this] s have s': "s = ?s1\<lparr>needs_processing := True\<rparr>" by simp
  show "needs_processing s" "timers s = timers s0"
    "needs_processing_timer s = needs_processing_timer s0" "clock s = clock s0"
    by (simp_all add: s')
  have r: "runner s = Waiting" using w by (simp add: s')
  with \<open>needs_processing s\<close> show "step s Wake = Some (dispatch s)" by (simp add: step_def)
  from nn assms have le: "nat (max_batch_size s) \<le> length (queue s)" by simp
  then show "runner (dispatch s) = Executing (take (nat (max_batch_size s)) (queue s))"
    using nn by (simp add: slice_to_take min_def)
  from le show "length (take (nat (max_batch_size s)) (queue s)) = nat (max_batch_size s)"
    by simp
qed

theorem full_batch_signals_ready_witness:
  "(let s0 = the (exec (init 2 2 (1 / 20) :: (string, string) system) [Start, Submit ''A'']);
        s = the (exec (init 2 2 (1 / 20) :: (string, string) system) [Start, Submit ''A'', Submit ''B''])
    in max_batch_size s = 2 \<and> length (queue s) = 2 \<and> runner s0 = Waiting
       \<and> process_input ''B'' s0 = Inr s
       \<and> needs_processing s \<and> timers s = timers s0 \<and> clock s = 0
       \<and> step s Wake = Some (dispatch s)
       \<and> runner (dispatch s) = Executing [\<lparr>tid = 0, input = ''A'', time = 0\<rparr>,
                                            \<lparr>tid = 1, input = ''B'', time = 0\<rparr>])"
proof -
  obtain s0 :: "(string, string) system"
    where e0: "exec (init 2 2 (1 / 20)) [Start, Submit ''A''] = Some s0"
    by (simp add: run_defs)
  obtain s :: "(string, string) system"
    where e: "exec (init 2 2 (1 / 20)) [Start, Submit ''A'', Submit ''B''] = Some s"
    by (simp add: run_defs)
  have f: "max_batch_size s = 2" "length (queue s) = 2" "runner s0 = Waiting"
    "process_input ''B'' s0 = Inr s" "clock s0 = 0"
    "queue s = [\<lparr>tid = 0, input = ''A'', time = 0\<rparr>, \<lparr>tid = 1, input = ''B'', time = 0\<rparr>]"
    using e e0 by (auto simp: run_defs)
  then have h: "max_batch_size s \<le> int (length (queue s))" by simp
  from full_batch_signals_ready [OF h, THEN conjunct2, rule_format, of s0 "''B''"] f e e0
  show ?thesis by simp
qed

section \<open>Dispatch\<close>

lemma cancel_timers_length [simp]: "length (timers (cancel h s)) = length (timers s)"
  by (simp add: cancel_def)

lemma dispatch_decides:
  fixes s :: "('i, 'o) system"
  defines "rest \<equiv> drop (length (slice_to (queue s) (max_batch_size s))) (queue s)"
  shows "max_batch_size s \<le> int (length rest) \<Longrightarrow>
           needs_processing (dispatch s) \<and> needs_processing_timer (dispatch s) = None
           \<and> length (timers (dispatch s)) = length (timers s)"
    and "rest \<noteq> [] \<Longrightarrow> int (length rest) < max_batch_size s \<Longrightarrow>
           \<not> needs_processing (dispatch s)
           \<and> needs_processing_timer (dispatch s) = Some (length (timers s))
           \<and> length (timers (dispatch s)) = Suc (length (timers s))
           \<and> timers (dispatch s) ! length (timers s) =
               \<lparr>tm_when = time (hd rest) + max_wait s, tm_state = Pending\<rparr>"
    and "rest = [] \<Longrightarrow> 0 < max_batch_size s \<Longrightarrow>
           \<not> needs_processing (dispatch s) \<and> needs_processing_timer (dispatch s) = None
           \<and> length (timers (dispatch s)) = length (timers s)"
  unfolding rest_def
  by (cases "needs_processing_timer s";
      simp add: dispatch_def schedule_processing_if_needed_def call_at_def Let_def nth_append)+

lemma ids_ok_sorted:
  assumes "ids_ok s"
  shows "sorted_wrt (<) (map tid (queue s))"
proof -
  from assms have "map tid (concat (launched s)) @ map tid (queue s) = [0..<accepted s]"
    by (simp add: ids_ok_def)
  moreover have "sorted_wrt (<) [0..<accepted s]" by (rule sorted_wrt_upt)
  ultimately have "sorted_wrt (<) (map tid (concat (launched s)) @ map tid (queue s))"
    by simp
  then show ?thesis by (simp only: sorted_wrt_append)
qed

lemma distinct_concat_nth:
  "distinct (concat xs) \<Longrightarrow> i < j \<Longrightarrow> j < length xs \<Longrightarrow> set (xs ! i) \<inter> set (xs ! j) = {}"
proof (induction xs arbitrary: i j)
  case Nil
  then show ?case by simp
next
  case (Cons x xs)
  from Cons.prems(2) obtain j' where j: "j = Suc j'" by (cases j) auto
  show ?case
  proof (cases i)
    case 0
    from Cons.prems(3) j have "xs ! j' \<in> set xs" by simp
    then have "set (xs ! j') \<subseteq> set (concat xs)" by auto
    with Cons.prems(1) 0 j show ?thesis by auto
  next
    case (Suc i')
    with Cons.prems j have "distinct (concat xs)" "i' < j'" "j' < length xs" by simp_all
    from Cons.IH [OF this] Suc j show ?thesis by simp
  qed
qed

text \<open>
  Claim C5. A dispatch removes the first \<open>min(len(queue), max_batch_size)\<close> tasks of
  the queue, in queue order, as the batch, and leaves the others queued; the batch is
  never longer than \<open>max_batch_size\<close>. The queue is in admission order (strictly
  increasing identities), so the batch holds the oldest tasks. In the same step the
  decide step runs on what is left: a remaining full batch sets the ready event, a
  shorter nonempty remainder gets a fresh pending timer at the time of its oldest task
  plus \<open>max_wait\<close>, an empty one gets neither. The dispatch is the one of a wake
  (\<open>tp = []\<close>, where \<open>fan_out\<close> changes nothing) or the one that follows the
  fan-out of the previous batch. \<open>max_batch_size\<close> is not negative.
\<close>

theorem dispatch_takes_oldest:
  assumes "exec (init mqs mbs mw) evs = Some s" and "0 \<le> mbs"
  shows "(let n = min (length (queue s)) (nat mbs);
              batch = take n (queue s); rest = drop n (queue s);
              s' = dispatch (fan_out tp rs s)
          in runner s' = Executing batch \<and> launched s' = launched s @ [batch]
             \<and> queue s' = rest \<and> batch @ rest = queue s \<and> int (length batch) \<le> mbs
             \<and> sorted_wrt (<) (map tid (queue s))
             \<and> (mbs \<le> int (length rest) \<longrightarrow> needs_processing s')
             \<and> (rest \<noteq> [] \<and> int (length rest) < mbs \<longrightarrow>
                  \<not> needs_processing s'
                  \<and> needs_processing_timer s' = Some (length (timers s))
                  \<and> length (timers s') = Suc (length (timers s))
                  \<and> timers s' ! length (timers s) =
                      \<lparr>tm_when = time (hd rest) + mw, tm_state = Pending\<rparr>)
             \<and> (rest = [] \<and> 0 < mbs \<longrightarrow>
                  \<not> needs_processing s' \<and> needs_processing_timer s' = None))"
proof -
  let ?s1 = "fan_out tp rs s"
  define n where "n = min (length (queue s)) (nat mbs)"
  define batch where "batch = take n (queue s)"
  define rest where "rest = drop n (queue s)"
  define s' where "s' = dispatch ?s1"
  from exec_config [OF assms(1)]
  have cfg: "max_batch_size s = mbs" "max_wait s = mw" by simp_all
  have cfg1: "max_batch_size ?s1 = mbs" "max_wait ?s1 = mw" "timers ?s1 = timers s"
    "queue ?s1 = queue s" by (simp_all add: cfg)
  have sl: "slice_to (queue s) mbs = batch"
    using assms(2) by (simp add: slice_to_take batch_def n_def)
  have ln: "length batch = n" by (simp add: batch_def n_def)
  have rest_eq: "drop (length (slice_to (queue s) mbs)) (queue s) = rest"
    by (simp only: sl ln rest_def)
  note d = dispatch_decides [of ?s1, unfolded cfg1 rest_eq, folded s'_def]
  from exec_consistent [OF assms(1)] have "ids_ok s" by (simp add: consistent_def)
  then have srt: "sorted_wrt (<) (map tid (queue s))" by (rule ids_ok_sorted)
  have len: "int (length batch) \<le> mbs" using assms(2) by (simp add: ln n_def)
  have r: "runner s' = Executing batch" "launched s' = launched s @ [batch]"
    "queue s' = rest"
    by (simp_all add: s'_def cfg sl ln rest_def)
  have app: "batch @ rest = queue s" by (simp add: batch_def rest_def)
  have "runner s' = Executing batch \<and> launched s' = launched s @ [batch]
             \<and> queue s' = rest \<and> batch @ rest = queue s \<and> int (length batch) \<le> mbs
             \<and> sorted_wrt (<) (map tid (queue s))
             \<and> (mbs \<le> int (length rest) \<longrightarrow> needs_processing s')
             \<and> (rest \<noteq> [] \<and> int (length rest) < mbs \<longrightarrow>
                  \<not> needs_processing s'
                  \<and> needs_processing_timer s' = Some (length (timers s))
                  \<and> length (timers s') = Suc (length (timers s))
                  \<and> timers s' ! length (timers s) =
                      \<lparr>tm_when = time (hd rest) + mw, tm_state = Pending\<rparr>)
             \<and> (rest = [] \<and> 0 < mbs \<longrightarrow>
                  \<not> needs_processing s' \<and> needs_processing_timer s' = None)"
    using r app len srt d by simp
  then show ?thesis
    unfolding Let_def n_def [symmetric] batch_def [symmetric] rest_def [symmetric]
      s'_def [symmetric] .
qed

theorem dispatch_takes_oldest_witness:
  "(let s = the (exec (init 128 2 (1 / 20) :: (string, string) system)
                   [Start, Submit ''A'', Submit ''B'', Tick (1 / 100), Submit ''C'']);
        s' = dispatch s
    in exec (init 128 2 (1 / 20) :: (string, string) system)
         [Start, Submit ''A'', Submit ''B'', Tick (1 / 100), Submit ''C''] = Some s
       \<and> (0 :: int) \<le> 2
       \<and> runner s' = Executing [\<lparr>tid = 0, input = ''A'', time = 0\<rparr>,
                                  \<lparr>tid = 1, input = ''B'', time = 0\<rparr>]
       \<and> queue s' = [\<lparr>tid = 2, input = ''C'', time = 1 / 100\<rparr>]
       \<and> \<not> needs_processing s' \<and> needs_processing_timer s' = Some 1
       \<and> timers s' ! 1 = \<lparr>tm_when = 1 / 100 + 1 / 20, tm_state = Pending\<rparr>)"
proof -
  obtain s :: "(string, string) system"
    where e: "exec (init 128 2 (1 / 20))
                [Start, Submit ''A'', Submit ''B'', Tick (1 / 100), Submit ''C''] = Some s"
    by (simp add: run_defs)
  have f: "queue s = [\<lparr>tid = 0, input = ''A'', time = 0\<rparr>,
                      \<lparr>tid = 1, input = ''B'', time = 0\<rparr>,
                      \<lparr>tid = 2, input = ''C'', time = 1 / 100\<rparr>]"
    "length (timers s) = 1"
    using e by (auto simp: run_defs)
  have "(0 :: int) \<le> 2" by simp
  from dispatch_takes_oldest [OF e this, of "[]" "[]"] f e
  show ?thesis by (simp add: Let_def)
qed

text \<open>
  Claim C9. In every execution, the tasks of all launched batches, batch after batch,
  followed by the tasks still queued, are exactly the admitted tasks in admission order,
  each once. So no task is in two batches or twice in one batch, and a task that was
  sliced off is no longer in the queue.
\<close>

theorem no_task_dispatched_twice:
  assumes "exec (init mqs mbs mw) evs = Some s"
  shows "map tid (concat (launched s) @ queue s) = [0..<accepted s]
    \<and> distinct (map tid (concat (launched s) @ queue s))
    \<and> (\<forall>i j. i < j \<and> j < length (launched s) \<longrightarrow>
          set (map tid (launched s ! i)) \<inter> set (map tid (launched s ! j)) = {})"
proof -
  from exec_consistent [OF assms] have ok: "ids_ok s" by (simp add: consistent_def)
  then have ids: "map tid (concat (launched s) @ queue s) = [0..<accepted s]"
    by (simp add: ids_ok_def)
  have d: "distinct (map tid (concat (launched s) @ queue s))"
    by (rule ids_ok_distinct [OF ok])
  then have "distinct (concat (map (map tid) (launched s)))"
    by (simp add: map_concat)
  then have "\<forall>i j. i < j \<and> j < length (launched s) \<longrightarrow>
          set (map tid (launched s ! i)) \<inter> set (map tid (launched s ! j)) = {}"
    using distinct_concat_nth [of "map (map tid) (launched s)"] by simp
  with ids d show ?thesis by simp
qed

theorem no_task_dispatched_twice_witness:
  "(let s = the (exec (init 128 1 (1 / 20) :: (string, string) system)
                   [Start, Submit ''A'', Submit ''B'', Wake, Submit ''C'',
                    Complete (Returns [''ra''])])
    in exec (init 128 1 (1 / 20) :: (string, string) system)
         [Start, Submit ''A'', Submit ''B'', Wake, Submit ''C'',
          Complete (Returns [''ra''])] = Some s
       \<and> map (map tid) (launched s) = [[0], [1]] \<and> map tid (queue s) = [2]
       \<and> distinct (map tid (concat (launched s) @ queue s)))"
proof -
  obtain s :: "(string, string) system"
    where e: "exec (init 128 1 (1 / 20))
                [Start, Submit ''A'', Submit ''B'', Wake, Submit ''C'',
                 Complete (Returns [''ra''])] = Some s"
    by (simp add: run_defs)
  have f: "map (map tid) (launched s) = [[0], [1]]" "map tid (queue s) = [2]"
    using e by (auto simp: run_defs)
  from no_task_dispatched_twice [OF e]
  have d: "distinct (map tid (concat (launched s) @ queue s))"
    by (rule conjunct1 [OF conjunct2])
  from e have s: "the (exec (init 128 1 (1 / 20))
                [Start, Submit ''A'', Submit ''B'', Wake, Submit ''C'',
                 Complete (Returns [''ra''])]) = s" by simp
  show ?thesis unfolding Let_def s by (intro conjI e f d)
qed

text \<open>
  Claim C10. Whenever the runner wakes with an empty queue it still goes through a
  dispatch cycle and hands the executor an empty batch. That happens: with
  \<open>max_batch_size = 3\<close>, the timer armed for the first submission loses its handle to
  the timer of the second one, the third submission triggers the dispatch, which
  cancels the second timer only, and after the batch completed the first timer
  fires at its deadline on an empty queue.
\<close>

theorem stale_timer_wakes_empty_queue:
  "(\<forall>s :: ('i, 'o) system. runner s = Waiting \<and> needs_processing s \<and> queue s = [] \<longrightarrow>
       step s Wake = Some (dispatch s) \<and> runner (dispatch s) = Executing []
       \<and> launched (dispatch s) = launched s @ [[]])
   \<and> (let s = the (exec (init 128 3 (1 / 20) :: (string, string) system)
                     [Start, Submit ''A'', Submit ''B'', Submit ''C'', Wake,
                      Complete (Returns [''ra'', ''rb'', ''rc'']), Tick (1 / 20), Fire 0])
       in exec (init 128 3 (1 / 20) :: (string, string) system)
            [Start, Submit ''A'', Submit ''B'', Submit ''C'', Wake,
             Complete (Returns [''ra'', ''rb'', ''rc'']), Tick (1 / 20)] \<noteq> None
          \<and> runner s = Waiting \<and> needs_processing s \<and> queue s = []
          \<and> map tm_state (timers s) = [Fired, Cancelled]
          \<and> needs_processing_timer s = None
          \<and> runner (dispatch s) = Executing []
          \<and> map (map input) (launched (dispatch s)) = [[''A'', ''B'', ''C''], []])"
proof (intro conjI allI impI)
  fix s :: "('i, 'o) system"
  assume a: "runner s = Waiting \<and> needs_processing s \<and> queue s = []"
  then show "step s Wake = Some (dispatch s)" by (simp add: step_def)
  from a show "runner (dispatch s) = Executing []" by (simp add: slice_to_def)
  from a show "launched (dispatch s) = launched s @ [[]]" by (simp add: slice_to_def)
next
  show "(let s = the (exec (init 128 3 (1 / 20) :: (string, string) system)
                     [Start, Submit ''A'', Submit ''B'', Submit ''C'', Wake,
                      Complete (Returns [''ra'', ''rb'', ''rc'']), Tick (1 / 20), Fire 0])
       in exec (init 128 3 (1 / 20) :: (string, string) system)
            [Start, Submit ''A'', Submit ''B'', Submit ''C'', Wake,
             Complete (Returns [''ra'', ''rb'', ''rc'']), Tick (1 / 20)] \<noteq> None
          \<and> runner s = Waiting \<and> needs_processing s \<and> queue s = []
          \<and> map tm_state (timers s) = [Fired, Cancelled]
          \<and> needs_processing_timer s = None
          \<and> runner (dispatch s) = Executing []
          \<and> map (map input) (launched (dispatch s)) = [[''A'', ''B'', ''C''], []])"
    by (simp add: run_defs)
qed

theorem stale_timer_wakes_empty_queue_witness:
  "(let s = the (exec (init 128 3 (1 / 20) :: (string, string) system)
                     [Start, Submit ''A'', Submit ''B'', Submit ''C'', Wake,
                      Complete (Returns [''ra'', ''rb'', ''rc'']), Tick (1 / 20), Fire 0])
    in runner s = Waiting \<and> needs_processing s \<and> queue s = []
       \<and> step s Wake = Some (dispatch s) \<and> runner (dispatch s) = Executing []
       \<and> launched (dispatch s) = launched s @ [[]])"
proof -
  obtain s :: "(string, string) system"
    where e: "exec (init 128 3 (1 / 20))
                     [Start, Submit ''A'', Submit ''B'', Submit ''C'', Wake,
                      Complete (Returns [''ra'', ''rb'', ''rc'']), Tick (1 / 20), Fire 0] = Some s"
    by (simp add: run_defs)
  have f: "runner s = Waiting \<and> needs_processing s \<and> queue s = []"
    using e by (auto simp: run_defs)
  from stale_timer_wakes_empty_queue [THEN conjunct1, rule_format, OF f] f e
  show ?thesis by (simp add: Let_def)
qed

section \<open>Result fan-out\<close>

lemma complete_store:
  "output (complete p tp s) = output (fan_out tp (run_model p (map input tp)) s)"
  "done_event (complete p tp s) = done_event (fan_out tp (run_model p (map input tp)) s)"
  by (simp_all add: complete_def Let_def)

lemma step_Complete: "runner s = Executing tp \<Longrightarrow> step s (Complete p) = Some (complete p tp s)"
  by (simp add: step_def)

lemma running_fresh:
  assumes "consistent s" and "runner s = Executing tp" and "k < length tp"
  shows "done_event s (tid (tp ! k)) = 0" and "output s (tid (tp ! k)) = None"
proof -
  from assms(3) have "tp ! k \<in> set tp" by (rule nth_mem)
  then have m: "tid (tp ! k) \<in> tid ` set tp" by (rule imageI)
  from bspec [OF consistent_running(3) [OF assms(1,2)] m]
  show "done_event s (tid (tp ! k)) = 0" and "output s (tid (tp ! k)) = None" by simp_all
qed

lemma complete_resolves:
  assumes "consistent s" and "runner s = Executing tp" and "k < length tp"
    and "k < length (run_model p (map input tp))"
  shows "output (complete p tp s) (tid (tp ! k)) = Some (run_model p (map input tp) ! k)"
    and "done_event (complete p tp s) (tid (tp ! k)) = 1"
proof -
  note d = consistent_running(1) [OF assms(1,2)]
  from fan_out_nth [OF d assms(3,4), of s] running_fresh(1) [OF assms(1,2,3)]
  show "output (complete p tp s) (tid (tp ! k)) = Some (run_model p (map input tp) ! k)"
    and "done_event (complete p tp s) (tid (tp ! k)) = 1"
    by (simp_all add: complete_store)
qed

lemma complete_skips:
  assumes "consistent s" and "runner s = Executing tp" and "k < length tp"
    and "length (run_model p (map input tp)) \<le> k"
  shows "output (complete p tp s) (tid (tp ! k)) = None"
    and "done_event (complete p tp s) (tid (tp ! k)) = 0"
proof -
  note d = consistent_running(1) [OF assms(1,2)]
  from fan_out_beyond [OF d assms(3,4), of s] running_fresh [OF assms(1,2,3)]
  show "output (complete p tp s) (tid (tp ! k)) = None"
    and "done_event (complete p tp s) (tid (tp ! k)) = 0"
    by (simp_all add: complete_store)
qed

text \<open>
  Claim C6. When \<open>service.parse\<close> returns as many results as the batch has tasks,
  the task at position \<open>k\<close> of the batch gets the result at position \<open>k\<close> as its
  output, its event, unset until then, is set once, and the waiting caller reads that
  output. The tasks of the batch are distinct dicts and no other task is touched, so
  nothing is assigned across.
\<close>

theorem outputs_in_order:
  assumes "exec (init mqs mbs mw) evs = Some s" and "runner s = Executing tp"
    and "length rs = length tp"
  shows "step s (Complete (Returns rs)) = Some (complete (Returns rs) tp s)
    \<and> distinct (map tid tp)
    \<and> (\<forall>k<length tp.
          done_event s (tid (tp ! k)) = 0
          \<and> output (complete (Returns rs) tp s) (tid (tp ! k)) = Some (rs ! k)
          \<and> done_event (complete (Returns rs) tp s) (tid (tp ! k)) = 1
          \<and> awaited (complete (Returns rs) tp s) (tid (tp ! k)) = Some (rs ! k))
    \<and> (\<forall>i. i \<notin> tid ` set tp \<longrightarrow>
          output (complete (Returns rs) tp s) i = output s i
          \<and> done_event (complete (Returns rs) tp s) i = done_event s i)"
proof (intro conjI allI impI)
  note c = exec_consistent [OF assms(1)]
  show "step s (Complete (Returns rs)) = Some (complete (Returns rs) tp s)"
    by (rule step_Complete [OF assms(2)])
  show "distinct (map tid tp)" by (rule consistent_running(1) [OF c assms(2)])
  have rm: "run_model (Returns rs) (map input tp) = rs" by (simp add: run_model_def)
  {
    fix k assume k: "k < length tp"
    with assms(3) have k': "k < length (run_model (Returns rs) (map input tp))"
      by (simp add: rm)
    show "done_event s (tid (tp ! k)) = 0" by (rule running_fresh(1) [OF c assms(2) k])
    from complete_resolves [OF c assms(2) k k']
    show o: "output (complete (Returns rs) tp s) (tid (tp ! k)) = Some (rs ! k)"
      and d: "done_event (complete (Returns rs) tp s) (tid (tp ! k)) = 1"
      by (simp_all add: rm)
    from o d show "awaited (complete (Returns rs) tp s) (tid (tp ! k)) = Some (rs ! k)"
      by (simp add: awaited_def)
  }
  fix i assume "i \<notin> tid ` set tp"
  from fan_out_other [OF this, of rs s]
  show "output (complete (Returns rs) tp s) i = output s i"
    and "done_event (complete (Returns rs) tp s) i = done_event s i"
    by (simp_all add: complete_store rm)
qed

theorem outputs_in_order_witness:
  "(let s = the (exec (init 128 2 (1 / 20) :: (string, string) system)
                   [Start, Submit ''A'', Submit ''B'', Wake]);
        s' = the (step s (Complete (Returns [''ra'', ''rb''])))
    in exec (init 128 2 (1 / 20) :: (string, string) system)
         [Start, Submit ''A'', Submit ''B'', Wake] = Some s
       \<and> map tid (case runner s of Executing tp \<Rightarrow> tp | _ \<Rightarrow> []) = [0, 1]
       \<and> output s' 0 = Some ''ra'' \<and> output s' 1 = Some ''rb''
       \<and> done_event s' 0 = 1 \<and> done_event s' 1 = 1)"
proof -
  define tp :: "string task list"
    where "tp = [\<lparr>tid = 0, input = ''A'', time = 0\<rparr>, \<lparr>tid = 1, input = ''B'', time = 0\<rparr>]"
  obtain s :: "(string, string) system"
    where e: "exec (init 128 2 (1 / 20)) [Start, Submit ''A'', Submit ''B'', Wake] = Some s"
    by (simp add: run_defs)
  have r: "runner s = Executing tp" using e by (auto simp: run_defs tp_def)
  have l: "length [''ra'', ''rb''] = length tp" by (simp add: tp_def)
  note t = outputs_in_order [OF e r l]
  from t have st: "step s (Complete (Returns [''ra'', ''rb''])) =
      Some (complete (Returns [''ra'', ''rb'']) tp s)" by (rule conjunct1)
  from t have "\<forall>k<length tp.
          done_event s (tid (tp ! k)) = 0
          \<and> output (complete (Returns [''ra'', ''rb'']) tp s) (tid (tp ! k))
              = Some ([''ra'', ''rb''] ! k)
          \<and> done_event (complete (Returns [''ra'', ''rb'']) tp s) (tid (tp ! k)) = 1
          \<and> awaited (complete (Returns [''ra'', ''rb'']) tp s) (tid (tp ! k))
              = Some ([''ra'', ''rb''] ! k)"
    by (rule conjunct1 [OF conjunct2 [OF conjunct2]])
  from this [rule_format, of 0] this [rule_format, of 1]
  have o: "output (complete (Returns [''ra'', ''rb'']) tp s) 0 = Some ''ra''"
    "output (complete (Returns [''ra'', ''rb'']) tp s) 1 = Some ''rb''"
    "done_event (complete (Returns [''ra'', ''rb'']) tp s) 0 = 1"
    "done_event (complete (Returns [''ra'', ''rb'']) tp s) 1 = 1"
    by (simp_all add: tp_def)
  have ids: "map tid (case runner s of Executing tp \<Rightarrow> tp | _ \<Rightarrow> []) = [0, 1]"
    by (simp add: r tp_def)
  from e have s: "the (exec (init 128 2 (1 / 20))
      [Start, Submit ''A'', Submit ''B'', Wake]) = s" by simp
  have s': "the (step s (Complete (Returns [''ra'', ''rb'']))) =
      complete (Returns [''ra'', ''rb'']) tp s"
    by (simp add: st)
  show ?thesis unfolding Let_def s s' by (intro conjI e ids o)
qed

text \<open>
  Claim C7. When \<open>service.parse\<close> raises, \<open>run_model\<close> returns the exception
  once per input, and every task of the batch gets that exception as its output and has
  its event set once: none succeeds and none stays pending.
\<close>

theorem worker_failure_fails_batch:
  assumes "exec (init mqs mbs mw) evs = Some s" and "runner s = Executing tp"
  shows "step s (Complete (Raises e)) = Some (complete (Raises e) tp s)
    \<and> run_model (Raises e) (map input tp) = replicate (length tp) e
    \<and> (\<forall>k<length tp.
          output (complete (Raises e) tp s) (tid (tp ! k)) = Some e
          \<and> done_event (complete (Raises e) tp s) (tid (tp ! k)) = 1
          \<and> awaited (complete (Raises e) tp s) (tid (tp ! k)) = Some e)"
proof (intro conjI allI impI)
  note c = exec_consistent [OF assms(1)]
  show "step s (Complete (Raises e)) = Some (complete (Raises e) tp s)"
    by (rule step_Complete [OF assms(2)])
  show rm: "run_model (Raises e) (map input tp) = replicate (length tp) e"
    by (simp add: run_model_def map_replicate_const)
  fix k assume k: "k < length tp"
  then have k': "k < length (run_model (Raises e) (map input tp))" by (simp add: rm)
  from complete_resolves [OF c assms(2) k k'] k
  show o: "output (complete (Raises e) tp s) (tid (tp ! k)) = Some e"
    and d: "done_event (complete (Raises e) tp s) (tid (tp ! k)) = 1"
    by (simp_all add: rm)
  from o d show "awaited (complete (Raises e) tp s) (tid (tp ! k)) = Some e"
    by (simp add: awaited_def)
qed

theorem worker_failure_fails_batch_witness:
  "(let s = the (exec (init 128 2 (1 / 20) :: (string, string) system)
                   [Start, Submit ''A'', Submit ''B'', Wake]);
        s' = the (step s (Complete (Raises ''boom'')))
    in exec (init 128 2 (1 / 20) :: (string, string) system)
         [Start, Submit ''A'', Submit ''B'', Wake] = Some s
       \<and> map tid (case runner s of Executing tp \<Rightarrow> tp | _ \<Rightarrow> []) = [0, 1]
       \<and> output s' 0 = Some ''boom'' \<and> output s' 1 = Some ''boom''
       \<and> done_event s' 0 = 1 \<and> done_event s' 1 = 1)"
proof -
  define tp :: "string task list"
    where "tp = [\<lparr>tid = 0, input = ''A'', time = 0\<rparr>, \<lparr>tid = 1, input = ''B'', time = 0\<rparr>]"
  obtain s :: "(string, string) system"
    where e: "exec (init 128 2 (1 / 20)) [Start, Submit ''A'', Submit ''B'', Wake] = Some s"
    by (simp add: run_defs)
  have r: "runner s = Executing tp" using e by (auto simp: run_defs tp_def)
  note t = worker_failure_fails_batch [OF e r, of "''boom''"]
  from t have st: "step s (Complete (Raises ''boom'')) =
      Some (complete (Raises ''boom'') tp s)" by (rule conjunct1)
  from t have "\<forall>k<length tp.
          output (complete (Raises ''boom'') tp s) (tid (tp ! k)) = Some ''boom''
          \<and> done_event (complete (Raises ''boom'') tp s) (tid (tp ! k)) = 1
          \<and> awaited (complete (Raises ''boom'') tp s) (tid (tp ! k)) = Some ''boom''"
    by (rule conjunct2 [OF conjunct2])
  from this [rule_format, of 0] this [rule_format, of 1]
  have o: "output (complete (Raises ''boom'') tp s) 0 = Some ''boom''"
    "output (complete (Raises ''boom'') tp s) 1 = Some ''boom''"
    "done_event (complete (Raises ''boom'') tp s) 0 = 1"
    "done_event (complete (Raises ''boom'') tp s) 1 = 1"
    by (simp_all add: tp_def)
  have ids: "map tid (case runner s of Executing tp \<Rightarrow> tp | _ \<Rightarrow> []) = [0, 1]"
    by (simp add: r tp_def)
  from e have s: "the (exec (init 128 2 (1 / 20))
      [Start, Submit ''A'', Submit ''B'', Wake]) = s" by simp
  have s': "the (step s (Complete (Raises ''boom''))) = complete (Raises ''boom'') tp s"
    by (simp add: st)
  show ?thesis unfolding Let_def s s' by (intro conjI e ids o)
qed

text \<open>
  Claim C8 (as stated, it fails). The fan-out loop runs over
  \<open>zip(to_process, result)\<close>, which stops at the shorter list, and the source has
  no other place that completes a task. A batch of two tasks whose worker returns one
  result leaves the second task out of the queue, with no output and an unset event.
\<close>

theorem short_result_leaves_task_pending:
  "map (map tid) (launched (the (exec (init 128 2 (1 / 20) :: (string, string) system)
       [Start, Submit ''A'', Submit ''B'', Wake, Complete (Returns [''ra''])]))) = [[0, 1]]
   \<and> runner (the (exec (init 128 2 (1 / 20) :: (string, string) system)
       [Start, Submit ''A'', Submit ''B'', Wake, Complete (Returns [''ra''])])) = Waiting
   \<and> queue (the (exec (init 128 2 (1 / 20) :: (string, string) system)
       [Start, Submit ''A'', Submit ''B'', Wake, Complete (Returns [''ra''])])) = []
   \<and> output (the (exec (init 128 2 (1 / 20) :: (string, string) system)
       [Start, Submit ''A'', Submit ''B'', Wake, Complete (Returns [''ra''])])) 1 = None
   \<and> done_event (the (exec (init 128 2 (1 / 20) :: (string, string) system)
       [Start, Submit ''A'', Submit ''B'', Wake, Complete (Returns [''ra''])])) 1 = 0"
  by (simp add: run_defs)

text \<open>
  Claim C8, amended. At the end of a dispatch cycle the task at position \<open>k\<close> of
  the batch has its output assigned and its event set exactly once if the result of
  \<open>run_model\<close> has a position \<open>k\<close>, and is left without output and with an unset
  event otherwise. So every task of the batch is completed when the worker raises or
  returns at least as many results as the batch has tasks (results beyond are
  dropped). No event is ever set twice.
\<close>

theorem batch_resolved_when_results_suffice:
  assumes "exec (init mqs mbs mw) evs = Some s" and "runner s = Executing tp"
  shows "step s (Complete p) = Some (complete p tp s)
    \<and> (\<forall>k<length tp.
          (k < length (run_model p (map input tp)) \<longrightarrow>
             output (complete p tp s) (tid (tp ! k)) = Some (run_model p (map input tp) ! k)
             \<and> done_event (complete p tp s) (tid (tp ! k)) = 1)
          \<and> (length (run_model p (map input tp)) \<le> k \<longrightarrow>
             output (complete p tp s) (tid (tp ! k)) = None
             \<and> done_event (complete p tp s) (tid (tp ! k)) = 0))
    \<and> (\<forall>i. done_event (complete p tp s) i \<le> 1)
    \<and> ((case p of Raises e \<Rightarrow> True | Returns rs \<Rightarrow> length tp \<le> length rs) \<longrightarrow>
         (\<forall>k<length tp. output (complete p tp s) (tid (tp ! k)) \<noteq> None
            \<and> done_event (complete p tp s) (tid (tp ! k)) = 1))"
proof -
  note c = exec_consistent [OF assms(1)]
  have st: "step s (Complete p) = Some (complete p tp s)"
    by (rule step_Complete [OF assms(2)])
  have each: "\<forall>k<length tp.
          (k < length (run_model p (map input tp)) \<longrightarrow>
             output (complete p tp s) (tid (tp ! k)) = Some (run_model p (map input tp) ! k)
             \<and> done_event (complete p tp s) (tid (tp ! k)) = 1)
          \<and> (length (run_model p (map input tp)) \<le> k \<longrightarrow>
             output (complete p tp s) (tid (tp ! k)) = None
             \<and> done_event (complete p tp s) (tid (tp ! k)) = 0)"
    using complete_resolves [OF c assms(2)] complete_skips [OF c assms(2)] by simp
  from step_consistent [OF c st] have "ids_ok (complete p tp s)" by (simp add: consistent_def)
  then have once: "\<forall>i. done_event (complete p tp s) i \<le> 1" by (simp add: ids_ok_def)
  have enough: "\<forall>k<length tp. output (complete p tp s) (tid (tp ! k)) \<noteq> None
            \<and> done_event (complete p tp s) (tid (tp ! k)) = 1"
    if "case p of Raises e \<Rightarrow> True | Returns rs \<Rightarrow> length tp \<le> length rs"
  proof -
    from that have "length tp \<le> length (run_model p (map input tp))"
      by (cases p) (simp_all add: run_model_def)
    with each show ?thesis by simp
  qed
  from st each once enough show ?thesis by simp
qed

theorem batch_resolved_when_results_suffice_witness:
  "(let s = the (exec (init 128 2 (1 / 20) :: (string, string) system)
                   [Start, Submit ''A'', Submit ''B'', Wake]);
        s' = the (step s (Complete (Returns [''ra'', ''rb'', ''rc''])))
    in exec (init 128 2 (1 / 20) :: (string, string) system)
         [Start, Submit ''A'', Submit ''B'', Wake] = Some s
       \<and> map tid (case runner s of Executing tp \<Rightarrow> tp | _ \<Rightarrow> []) = [0, 1]
       \<and> output s' 0 = Some ''ra'' \<and> output s' 1 = Some ''rb''
       \<and> done_event s' 0 = 1 \<and> done_event s' 1 = 1)"
proof -
  define tp :: "string task list"
    where "tp = [\<lparr>tid = 0, input = ''A'', time = 0\<rparr>, \<lparr>tid = 1, input = ''B'', time = 0\<rparr>]"
  define p :: "string parse_outcome" where "p = Returns [''ra'', ''rb'', ''rc'']"
  obtain s :: "(string, string) system"
    where e: "exec (init 128 2 (1 / 20)) [Start, Submit ''A'', Submit ''B'', Wake] = Some s"
    by (simp add: run_defs)
  have r: "runner s = Executing tp" using e by (auto simp: run_defs tp_def)
  have rm: "run_model p xs = [''ra'', ''rb'', ''rc'']" for xs :: "string list"
    by (simp add: run_model_def p_def)
  note t = batch_resolved_when_results_suffice [OF e r, of p]
  from t have st: "step s (Complete p) = Some (complete p tp s)" by (rule conjunct1)
  from t have "\<forall>k<length tp.
          (k < length (run_model p (map input tp)) \<longrightarrow>
             output (complete p tp s) (tid (tp ! k)) = Some (run_model p (map input tp) ! k)
             \<and> done_event (complete p tp s) (tid (tp ! k)) = 1)
          \<and> (length (run_model p (map input tp)) \<le> k \<longrightarrow>
             output (complete p tp s) (tid (tp ! k)) = None
             \<and> done_event (complete p tp s) (tid (tp ! k)) = 0)"
    by (rule conjunct1 [OF conjunct2])
  from this [rule_format, of 0] this [rule_format, of 1]
  have o: "output (complete p tp s) 0 = Some ''ra''"
    "output (complete p tp s) 1 = Some ''rb''"
    "done_event (complete p tp s) 0 = 1"
    "done_event (complete p tp s) 1 = 1"
    by (simp_all add: tp_def rm)
  have ids: "map tid (case runner s of Executing tp \<Rightarrow> tp | _ \<Rightarrow> []) = [0, 1]"
    by (simp add: r tp_def)
  from e have s: "the (exec (init 128 2 (1 / 20))
      [Start, Submit ''A'', Submit ''B'', Wake]) = s" by simp
  have s': "the (step s (Complete (Returns [''ra'', ''rb'', ''rc'']))) = complete p tp s"
    using st by (simp add: p_def)
  show ?thesis unfolding Let_def s s' by (intro conjI e ids o)
qed

end
